theory Spec2Isabelle
  imports Complex_Main
begin

section \<open>JavaScript numbers and helpers\<close>

text \<open>
  The hooks compute with JavaScript numbers.  Times read from \<^verbatim>\<open>performance.now()\<close>,
  durations, byte counts and layout-shift scores are modelled as \<^typ>\<open>real\<close>; counters
  that the code only increments by one are \<^typ>\<open>nat\<close>.  The binary rounding of IEEE
  doubles is not part of the model.
\<close>

text \<open>\<^verbatim>\<open>Math.round(x)\<close>: the integer nearest to \<open>x\<close>, a tie going up.\<close>

definition Math_round :: "real \<Rightarrow> int" where
  "Math_round x = \<lfloor>x + 1 / 2\<rfloor>"

text \<open>Exceptions of the JavaScript code that the models below can raise.\<close>

datatype js_error = TypeError | NotSupportedError

section \<open>useFps: the frame-rate sampler\<close>

text \<open>
  The variables of the effect's closure (\<^verbatim>\<open>frameCount\<close>, \<^verbatim>\<open>lastTime\<close>,
  \<^verbatim>\<open>animationFrameId\<close>), the React state \<^verbatim>\<open>fps\<close>, the log of every value passed to
  \<^verbatim>\<open>setFps\<close> (oldest first), and the host's frame scheduler: the identifiers of the
  pending \<^verbatim>\<open>requestAnimationFrame\<close> requests and the next identifier it hands out.
\<close>

record fps_state =
  frameCount :: nat
  lastTime :: real
  animationFrameId :: nat
  fps :: int
  setFps_calls :: "int list"
  raf_pending :: "nat list"
  raf_next :: nat

definition setFps :: "int \<Rightarrow> fps_state \<Rightarrow> fps_state" where
  "setFps v s = s\<lparr>fps := v, setFps_calls := setFps_calls s @ [v]\<rparr>"

text \<open>\<^verbatim>\<open>animationFrameId = requestAnimationFrame(loop)\<close>\<close>

definition requestAnimationFrame_loop :: "fps_state \<Rightarrow> fps_state" where
  "requestAnimationFrame_loop s =
     s\<lparr>animationFrameId := raf_next s,
       raf_pending := raf_pending s @ [raf_next s],
       raf_next := Suc (raf_next s)\<rparr>"

text \<open>\<^verbatim>\<open>cancelAnimationFrame(id)\<close>: removes the request; an unknown id is ignored.\<close>

definition cancelAnimationFrame :: "nat \<Rightarrow> fps_state \<Rightarrow> fps_state" where
  "cancelAnimationFrame i s = s\<lparr>raf_pending := removeAll i (raf_pending s)\<rparr>"

text \<open>The body of \<^verbatim>\<open>loop\<close>; \<open>now\<close> is what \<^verbatim>\<open>performance.now()\<close> returns in it.\<close>

definition loop :: "real \<Rightarrow> fps_state \<Rightarrow> fps_state" where
  "loop now s =
     (let s1 = s\<lparr>frameCount := frameCount s + 1\<rparr>;
          s2 = (if now - lastTime s1 \<ge> 1000
                then (setFps (Math_round (real (frameCount s1) * 1000 / (now - lastTime s1))) s1)
                       \<lparr>frameCount := 0, lastTime := now\<rparr>
                else s1)
      in requestAnimationFrame_loop s2)"

text \<open>
  The effect: \<^verbatim>\<open>frameCount = 0\<close>, \<^verbatim>\<open>lastTime = performance.now()\<close> (read as \<open>t0\<close>),
  then \<^verbatim>\<open>loop()\<close> is called at once (its clock read is \<open>t1\<close>).  The scheduler
  fields of \<open>host\<close> are kept.
\<close>

definition useFps_effect :: "real \<Rightarrow> real \<Rightarrow> fps_state \<Rightarrow> fps_state" where
  "useFps_effect t0 t1 host =
     loop t1 (host\<lparr>frameCount := 0, lastTime := t0, fps := 0, setFps_calls := []\<rparr>)"

text \<open>The cleanup returned by the effect: \<^verbatim>\<open>() => cancelAnimationFrame(animationFrameId)\<close>.\<close>

definition useFps_cleanup :: "fps_state \<Rightarrow> fps_state" where
  "useFps_cleanup s = cancelAnimationFrame (animationFrameId s) s"

text \<open>
  One rendering opportunity of the host at time \<open>now\<close>: the pending requests are taken
  off the list and the callback of each (always \<^verbatim>\<open>loop\<close> here) is run.
\<close>

definition frame :: "real \<Rightarrow> fps_state \<Rightarrow> fps_state" where
  "frame now s = fold (\<lambda>_. loop now) (raf_pending s) (s\<lparr>raf_pending := []\<rparr>)"

text \<open>
  A sequence of rendering opportunities of the host, at the given clock readings: the
  frames.  While the sampler runs, each of them invokes \<^verbatim>\<open>loop\<close> once.
\<close>

definition run_frames :: "real list \<Rightarrow> fps_state \<Rightarrow> fps_state" where
  "run_frames ts s = fold frame ts s"

text \<open>A host on which no frame request of the hook is pending.\<close>

definition idle_host :: fps_state where
  "idle_host = \<lparr>frameCount = 0, lastTime = 0, animationFrameId = 0, fps = 0,
     setFps_calls = [], raf_pending = [], raf_next = 0\<rparr>"

section \<open>useMemory: the heap sampler\<close>

text \<open>
  \<^verbatim>\<open>performance.memory\<close> is optional: \<open>None\<close> is \<^verbatim>\<open>undefined\<close>.  The hook's state
  holds \<^verbatim>\<open>{ used, limit } | null\<close>, and \<open>setMemory_calls\<close> logs every value passed to
  \<^verbatim>\<open>setMemory\<close>, oldest first.  \<open>interval_active\<close> is the host's timer created by
  \<^verbatim>\<open>setInterval\<close>.
\<close>

record memory_info =
  usedJSHeapSize :: real
  jsHeapSizeLimit :: real

record heap_sample =
  used :: real
  limit :: real

record memory_state =
  memory :: "heap_sample option"
  setMemory_calls :: "heap_sample option list"
  interval_active :: bool

definition setMemory :: "heap_sample option \<Rightarrow> memory_state \<Rightarrow> memory_state" where
  "setMemory v s = s\<lparr>memory := v, setMemory_calls := setMemory_calls s @ [v]\<rparr>"

text \<open>Reading a property of \<^verbatim>\<open>performance.memory\<close>; of \<^verbatim>\<open>undefined\<close> it raises.\<close>

definition get_usedJSHeapSize :: "memory_info option \<Rightarrow> js_error + real" where
  "get_usedJSHeapSize pm = (case pm of None \<Rightarrow> Inl TypeError | Some m \<Rightarrow> Inr (usedJSHeapSize m))"

definition get_jsHeapSizeLimit :: "memory_info option \<Rightarrow> js_error + real" where
  "get_jsHeapSizeLimit pm = (case pm of None \<Rightarrow> Inl TypeError | Some m \<Rightarrow> Inr (jsHeapSizeLimit m))"

text \<open>The function passed to \<^verbatim>\<open>setInterval\<close>; \<open>pm\<close> is \<^verbatim>\<open>performance.memory\<close> when it runs.\<close>

definition interval_callback :: "memory_info option \<Rightarrow> memory_state \<Rightarrow> js_error + memory_state" where
  "interval_callback pm s =
     (if pm \<noteq> None then
        (case get_usedJSHeapSize pm of
           Inl e \<Rightarrow> Inl e
         | Inr u \<Rightarrow>
            (case get_jsHeapSizeLimit pm of
               Inl e \<Rightarrow> Inl e
             | Inr l \<Rightarrow> Inr (setMemory (Some \<lparr>used = u / 1024 / 1024, limit = l / 1024 / 1024\<rparr>) s)))
      else Inr s)"

text \<open>The state after \<^verbatim>\<open>useState(null)\<close> and the effect's \<^verbatim>\<open>setInterval\<close>.\<close>

definition useMemory_effect :: memory_state where
  "useMemory_effect = \<lparr>memory = None, setMemory_calls = [], interval_active = True\<rparr>"

text \<open>The cleanup: \<^verbatim>\<open>() => clearInterval(interval)\<close>.\<close>

definition useMemory_cleanup :: "memory_state \<Rightarrow> memory_state" where
  "useMemory_cleanup s = s\<lparr>interval_active := False\<rparr>"

text \<open>
  One tick of the host's timer: the callback runs if the interval has not been cleared.
  An exception of the callback would be reported by the host and change nothing.
\<close>

definition tick :: "memory_info option \<Rightarrow> memory_state \<Rightarrow> memory_state" where
  "tick pm s =
     (if interval_active s
      then (case interval_callback pm s of Inl e \<Rightarrow> s | Inr s' \<Rightarrow> s')
      else s)"

definition run_ticks :: "memory_info option list \<Rightarrow> memory_state \<Rightarrow> memory_state" where
  "run_ticks pms s = fold tick pms s"

section \<open>useWebVitals: the vitals observer (PerformanceObserver version)\<close>

text \<open>
  The hook that subscribes four \<^verbatim>\<open>PerformanceObserver\<close>s.  Fields of the entries keep
  their names, except \<^verbatim>\<open>value\<close> of a layout-shift entry (\<open>shift_value\<close>) and
  \<^verbatim>\<open>duration\<close> of an event entry (\<open>entry_duration\<close>).
\<close>

record WebVitals =
  lcp :: "real option"
  fid :: "real option"
  cls :: "real option"
  inp :: "real option"

record LCPEntry =
  renderTime :: real
  loadTime :: real

record LayoutShiftEntry =
  shift_value :: real
  hadRecentInput :: bool

record FirstInputEntry =
  processingStart :: real
  startTime :: real

record EventEntry =
  entry_duration :: real

datatype metric = LCP | CLS | FID | INP

text \<open>The entry type each observer asks for in \<^verbatim>\<open>observe({ type, buffered: true })\<close>.\<close>

fun entry_type :: "metric \<Rightarrow> string" where
  "entry_type LCP = ''largest-contentful-paint''"
| "entry_type CLS = ''layout-shift''"
| "entry_type FID = ''first-input''"
| "entry_type INP = ''event''"

fun field :: "metric \<Rightarrow> WebVitals \<Rightarrow> real option" where
  "field LCP v = lcp v"
| "field CLS v = cls v"
| "field FID v = fid v"
| "field INP v = inp v"

text \<open>
  The React state \<^verbatim>\<open>vitals\<close>, the closure variables \<^verbatim>\<open>clsValue\<close> and \<^verbatim>\<open>worstInp\<close>,
  the host's record of which observers are subscribed, the console, and the exceptions
  of observer callbacks that the host reported.
\<close>

record vitals_state =
  vitals :: WebVitals
  clsValue :: real
  worstInp :: real
  observing :: "metric \<Rightarrow> bool"
  console :: "string list"
  reported :: "js_error list"

text \<open>\<^verbatim>\<open>setVitals(prev => ({ ...prev, lcp: v }))\<close> and its three siblings.\<close>

definition setVitals_lcp :: "real \<Rightarrow> vitals_state \<Rightarrow> vitals_state" where
  "setVitals_lcp v s = s\<lparr>vitals := (vitals s)\<lparr>lcp := Some v\<rparr>\<rparr>"

definition setVitals_cls :: "real \<Rightarrow> vitals_state \<Rightarrow> vitals_state" where
  "setVitals_cls v s = s\<lparr>vitals := (vitals s)\<lparr>cls := Some v\<rparr>\<rparr>"

definition setVitals_fid :: "real \<Rightarrow> vitals_state \<Rightarrow> vitals_state" where
  "setVitals_fid v s = s\<lparr>vitals := (vitals s)\<lparr>fid := Some v\<rparr>\<rparr>"

definition setVitals_inp :: "real \<Rightarrow> vitals_state \<Rightarrow> vitals_state" where
  "setVitals_inp v s = s\<lparr>vitals := (vitals s)\<lparr>inp := Some v\<rparr>\<rparr>"

text \<open>
  The LCP callback: \<^verbatim>\<open>entries[entries.length - 1]\<close> of an empty list is
  \<^verbatim>\<open>undefined\<close>, and reading \<^verbatim>\<open>renderTime\<close> of it raises.  \<^verbatim>\<open>a || b || 0\<close> takes the
  first operand that is not zero.
\<close>

definition lcpObserver_callback :: "LCPEntry list \<Rightarrow> vitals_state \<Rightarrow> js_error + vitals_state" where
  "lcpObserver_callback entries s =
     (if entries = [] then Inl TypeError
      else
        (let lastEntry = last entries;
             lcpValue = (if renderTime lastEntry \<noteq> 0 then renderTime lastEntry
                         else if loadTime lastEntry \<noteq> 0 then loadTime lastEntry
                         else 0)
         in Inr (setVitals_lcp lcpValue s)))"

text \<open>
  The body of the CLS callback's \<^verbatim>\<open>for\<close> loop, and the loop.  The updater passed to
  \<^verbatim>\<open>setVitals\<close> reads \<^verbatim>\<open>clsValue\<close> when React runs it; the model applies it at once,
  which gives the same state once the updaters of a delivery have run.  The same holds
  for \<^verbatim>\<open>worstInp\<close> below.
\<close>

definition cls_entry :: "LayoutShiftEntry \<Rightarrow> vitals_state \<Rightarrow> vitals_state" where
  "cls_entry entry s =
     (if \<not> hadRecentInput entry
      then (let s1 = s\<lparr>clsValue := clsValue s + shift_value entry\<rparr>
            in setVitals_cls (clsValue s1) s1)
      else s)"

definition clsObserver_callback :: "LayoutShiftEntry list \<Rightarrow> vitals_state \<Rightarrow> vitals_state" where
  "clsObserver_callback entries s = fold cls_entry entries s"

text \<open>The FID callback: \<^verbatim>\<open>getEntries()[0]\<close>, guarded by \<^verbatim>\<open>if (firstInput)\<close>.\<close>

definition fidObserver_callback :: "FirstInputEntry list \<Rightarrow> vitals_state \<Rightarrow> vitals_state" where
  "fidObserver_callback entries s =
     (case entries of
        [] \<Rightarrow> s
      | firstInput # _ \<Rightarrow> setVitals_fid (processingStart firstInput - startTime firstInput) s)"

text \<open>
  The body of the INP callback's loop: \<^verbatim>\<open>entry.duration && entry.duration > worstInp\<close>
  (a number is truthy when it is not zero), and the loop.
\<close>

definition inp_entry :: "EventEntry \<Rightarrow> vitals_state \<Rightarrow> vitals_state" where
  "inp_entry entry s =
     (if entry_duration entry \<noteq> 0 \<and> entry_duration entry > worstInp s
      then (let s1 = s\<lparr>worstInp := entry_duration entry\<rparr>
            in setVitals_inp (worstInp s1) s1)
      else s)"

definition inpObserver_callback :: "EventEntry list \<Rightarrow> vitals_state \<Rightarrow> vitals_state" where
  "inpObserver_callback entries s = fold inp_entry entries s"

text \<open>
  \<^verbatim>\<open>observer.observe({ type, buffered: true })\<close> on a host that supports the entry
  types \<open>supported\<close>: it subscribes the observer, or raises for an unsupported type.
\<close>

definition observe :: "(string \<Rightarrow> bool) \<Rightarrow> metric \<Rightarrow> vitals_state \<Rightarrow> js_error + vitals_state" where
  "observe supported m s =
     (if supported (entry_type m) then Inr (s\<lparr>observing := (observing s)(m := True)\<rparr>)
      else Inl NotSupportedError)"

definition console_warn :: "string \<Rightarrow> vitals_state \<Rightarrow> js_error + vitals_state" where
  "console_warn msg s = Inr (s\<lparr>console := console s @ [msg]\<rparr>)"

text \<open>\<^verbatim>\<open>try { body } catch { handler }\<close> and sequencing of statements that may raise.\<close>

definition try_catch ::
  "(vitals_state \<Rightarrow> js_error + vitals_state) \<Rightarrow> (vitals_state \<Rightarrow> js_error + vitals_state) \<Rightarrow>
   vitals_state \<Rightarrow> js_error + vitals_state" where
  "try_catch body handler s = (case body s of Inl e \<Rightarrow> handler s | Inr s' \<Rightarrow> Inr s')"

definition seq ::
  "(vitals_state \<Rightarrow> js_error + vitals_state) \<Rightarrow> (vitals_state \<Rightarrow> js_error + vitals_state) \<Rightarrow>
   vitals_state \<Rightarrow> js_error + vitals_state" where
  "seq first second s = (case first s of Inl e \<Rightarrow> Inl e | Inr s' \<Rightarrow> second s')"

text \<open>The state before the effect: \<^verbatim>\<open>useState\<close> with four \<^verbatim>\<open>null\<close> fields.\<close>

definition vitals_initial :: vitals_state where
  "vitals_initial =
     \<lparr>vitals = \<lparr>lcp = None, fid = None, cls = None, inp = None\<rparr>,
      clsValue = 0, worstInp = 0, observing = (\<lambda>_. False), console = [], reported = []\<rparr>"

text \<open>
  The effect, in the order of the source: LCP, CLS (with \<^verbatim>\<open>let clsValue = 0\<close>), FID,
  INP (with \<^verbatim>\<open>let worstInp = 0\<close>).
\<close>

definition useWebVitals_effect :: "(string \<Rightarrow> bool) \<Rightarrow> js_error + vitals_state" where
  "useWebVitals_effect supported =
     seq (try_catch (observe supported LCP) (console_warn ''LCP not supported''))
    (seq (\<lambda>s. Inr (s\<lparr>clsValue := 0\<rparr>))
    (seq (try_catch (observe supported CLS) (console_warn ''CLS not supported''))
    (seq (try_catch (observe supported FID) (console_warn ''FID not supported''))
    (seq (\<lambda>s. Inr (s\<lparr>worstInp := 0\<rparr>))
         (try_catch (observe supported INP)
            (console_warn ''INP not supported, using FID as fallback''))))))
     vitals_initial"

text \<open>The cleanup: the four \<^verbatim>\<open>disconnect()\<close> calls.\<close>

definition disconnect :: "metric \<Rightarrow> vitals_state \<Rightarrow> vitals_state" where
  "disconnect m s = s\<lparr>observing := (observing s)(m := False)\<rparr>"

definition useWebVitals_cleanup :: "vitals_state \<Rightarrow> vitals_state" where
  "useWebVitals_cleanup s = disconnect INP (disconnect FID (disconnect CLS (disconnect LCP s)))"

text \<open>
  What the host delivers: a list of entries of one type, handed to the callback of the
  observer of that type if it is subscribed.  An exception of a callback is reported by
  the host and does not reach the hook.
\<close>

datatype entry_list =
  LcpEntries "LCPEntry list"
| ClsEntries "LayoutShiftEntry list"
| FidEntries "FirstInputEntry list"
| InpEntries "EventEntry list"

fun deliver :: "entry_list \<Rightarrow> vitals_state \<Rightarrow> vitals_state" where
  "deliver (LcpEntries es) s =
     (if observing s LCP
      then (case lcpObserver_callback es s of
              Inl e \<Rightarrow> s\<lparr>reported := reported s @ [e]\<rparr>
            | Inr s' \<Rightarrow> s')
      else s)"
| "deliver (ClsEntries es) s = (if observing s CLS then clsObserver_callback es s else s)"
| "deliver (FidEntries es) s = (if observing s FID then fidObserver_callback es s else s)"
| "deliver (InpEntries es) s = (if observing s INP then inpObserver_callback es s else s)"

definition run_vitals :: "entry_list list \<Rightarrow> vitals_state \<Rightarrow> vitals_state" where
  "run_vitals evs s = fold deliver evs s"

text \<open>The layout-shift entries and the event entries among what the host delivered.\<close>

fun shifts_of :: "entry_list \<Rightarrow> LayoutShiftEntry list" where
  "shifts_of (ClsEntries es) = es"
| "shifts_of _ = []"

fun events_of :: "entry_list \<Rightarrow> EventEntry list" where
  "events_of (InpEntries es) = es"
| "events_of _ = []"

text \<open>The layout-shift entries that are not flagged as following a recent input.\<close>

definition unflagged :: "LayoutShiftEntry list \<Rightarrow> LayoutShiftEntry list" where
  "unflagged es = filter (\<lambda>e. \<not> hadRecentInput e) es"

text \<open>The state the effect leaves on a host that supports the entry types \<open>supported\<close>.\<close>

definition effect_state :: "(string \<Rightarrow> bool) \<Rightarrow> vitals_state" where
  "effect_state supported =
     \<lparr>vitals = \<lparr>lcp = None, fid = None, cls = None, inp = None\<rparr>,
      clsValue = 0, worstInp = 0,
      observing = (\<lambda>m. supported (entry_type m)),
      console =
        (if supported ''largest-contentful-paint'' then [] else [''LCP not supported'']) @
        (if supported ''layout-shift'' then [] else [''CLS not supported'']) @
        (if supported ''first-input'' then [] else [''FID not supported'']) @
        (if supported ''event'' then [] else [''INP not supported, using FID as fallback'']),
      reported = []\<rparr>"

text \<open>Two states agree on everything the observer of one metric reads and writes.\<close>

definition same_stream :: "metric \<Rightarrow> vitals_state \<Rightarrow> vitals_state \<Rightarrow> bool" where
  "same_stream m s t =
     (observing s m = observing t m \<and> field m (vitals s) = field m (vitals t) \<and>
      (m = CLS \<longrightarrow> clsValue s = clsValue t) \<and> (m = INP \<longrightarrow> worstInp s = worstInp t))"

section \<open>useNetworkMonitor: the call interceptor\<close>

record NetworkRequest =
  url :: string
  status :: int
  duration :: real
  timestamp :: real

text \<open>
  What \<^verbatim>\<open>originalFetch\<close> resolves to: \<^verbatim>\<open>response.status\<close> and the rest of the response.
  The outcome of a call is \<open>Inr response\<close> when the promise fulfils and \<open>Inl err\<close> when it
  rejects with \<open>err\<close>.
\<close>

datatype 'b Response = Response (response_status: int) (response_body: 'b)

text \<open>
  Function values, compared by reference.  \<open>HostFetch k\<close> is a function that exists
  outside the hook (the native \<^verbatim>\<open>fetch\<close>, a polyfill), identified by \<open>k\<close>.
  \<open>Wrapper k f\<close> is the closure the effect creates: the \<open>k\<close>-th closure allocated, with
  \<open>f\<close> the value of \<^verbatim>\<open>originalFetch\<close> it captured.
\<close>

datatype fetch_fn = HostFetch nat | Wrapper nat fetch_fn

text \<open>
  The global \<^verbatim>\<open>window.fetch\<close>, the allocation counter for closures, the React state
  \<^verbatim>\<open>requests\<close>, the number of invocations of \<^verbatim>\<open>setRequests\<close>, the wrapper created by
  the effect (\<open>None\<close> before the effect has run), and the calls that are inside the wrapper
  waiting for \<^verbatim>\<open>originalFetch\<close>: an identifier, \<^verbatim>\<open>args[0].toString()\<close> and
  \<^verbatim>\<open>startTime\<close>.  What React does with an update of an unmounted component is not
  modelled.
\<close>

record net_state =
  window_fetch :: fetch_fn
  next_closure :: nat
  requests :: "NetworkRequest list"
  setRequests_calls :: nat
  installed :: "fetch_fn option"
  in_flight :: "(nat \<times> string \<times> real) list"

definition net_initial :: "fetch_fn \<Rightarrow> net_state" where
  "net_initial f = \<lparr>window_fetch = f, next_closure = 0, requests = [], setRequests_calls = 0,
     installed = None, in_flight = []\<rparr>"

text \<open>\<^verbatim>\<open>setRequests(prev => f(prev))\<close>\<close>

definition setRequests :: "(NetworkRequest list \<Rightarrow> NetworkRequest list) \<Rightarrow> net_state \<Rightarrow> net_state" where
  "setRequests f s = s\<lparr>requests := f (requests s), setRequests_calls := Suc (setRequests_calls s)\<rparr>"

text \<open>
  \<^verbatim>\<open>parseFloat(x.toFixed(f))\<close>: \<^verbatim>\<open>toFixed\<close> prints the sign and then the magnitude
  rounded to \<open>f\<close> decimals, a tie going up; from \<open>10^21\<close> on it prints the number itself.
\<close>

definition parseFloat_toFixed :: "nat \<Rightarrow> real \<Rightarrow> real" where
  "parseFloat_toFixed f x =
     (if \<bar>x\<bar> \<ge> 10 ^ 21 then x
      else if x < 0 then - (real_of_int \<lfloor>(- x) * 10 ^ f + 1 / 2\<rfloor> / 10 ^ f)
      else real_of_int \<lfloor>x * 10 ^ f + 1 / 2\<rfloor> / 10 ^ f)"

text \<open>
  The wrapper after \<^verbatim>\<open>await originalFetch(...args)\<close> has settled with \<open>outcome\<close>, for a
  call with \<^verbatim>\<open>args[0].toString()\<close> = \<open>u\<close> that read \<open>start\<close> into \<^verbatim>\<open>startTime\<close> when it began.
  \<open>now\<close> and \<open>date\<close> are what \<^verbatim>\<open>performance.now()\<close> and \<^verbatim>\<open>Date.now()\<close> return where
  the branch reads them: before \<^verbatim>\<open>setRequests\<close> in the \<^verbatim>\<open>try\<close> branch, inside the
  updater passed to \<^verbatim>\<open>setRequests\<close> in the \<^verbatim>\<open>catch\<close> branch.  \<^verbatim>\<open>args[0]\<close> is a
  string, a URL or a Request, as the signature of \<^verbatim>\<open>fetch\<close> requires, so
  \<^verbatim>\<open>toString()\<close> does not raise.  The result is what the wrapper's promise settles
  with, and the new state.
\<close>

definition fetch_wrapper_settle ::
  "string \<Rightarrow> real \<Rightarrow> 'e + 'b Response \<Rightarrow> real \<Rightarrow> real \<Rightarrow> net_state \<Rightarrow>
   ('e + 'b Response) \<times> net_state" where
  "fetch_wrapper_settle u start outcome now date s =
     (case outcome of
        Inr response \<Rightarrow>
          (let elapsed = now - start;
               newReq = \<lparr>url = u, status = response_status response,
                         duration = parseFloat_toFixed 2 elapsed, timestamp = date\<rparr>
           in (Inr response, setRequests (\<lambda>prev. take 5 (newReq # prev)) s))
      | Inl err \<Rightarrow>
          (Inl err,
           setRequests
             (\<lambda>prev. take 5 (\<lparr>url = u, status = 0, duration = now - start,
                                 timestamp = date\<rparr> # prev)) s))"

text \<open>
  The effect: \<^verbatim>\<open>originalFetch = window.fetch\<close>, then \<^verbatim>\<open>window.fetch\<close> becomes a new
  closure.  It returns the captured \<^verbatim>\<open>originalFetch\<close>, which is all the cleanup closure
  holds, and the new state.
\<close>

definition useNetworkMonitor_effect :: "net_state \<Rightarrow> fetch_fn \<times> net_state" where
  "useNetworkMonitor_effect s =
     (let originalFetch = window_fetch s;
          wrapper = Wrapper (next_closure s) originalFetch
      in (originalFetch,
          s\<lparr>window_fetch := wrapper, next_closure := Suc (next_closure s),
            installed := Some wrapper\<rparr>))"

text \<open>The cleanup: \<^verbatim>\<open>() => { window.fetch = originalFetch; }\<close>\<close>

definition useNetworkMonitor_cleanup :: "fetch_fn \<Rightarrow> net_state \<Rightarrow> net_state" where
  "useNetworkMonitor_cleanup originalFetch s = s\<lparr>window_fetch := originalFetch\<rparr>"

text \<open>
  What happens around the hook.  \<open>Call c u now\<close>: some code calls \<^verbatim>\<open>window.fetch\<close>; if
  that is the hook's wrapper, the wrapper reads \<^verbatim>\<open>startTime\<close> = \<open>now\<close> and waits for
  \<^verbatim>\<open>originalFetch\<close>.  \<open>Settle c outcome now date\<close>: the \<^verbatim>\<open>originalFetch\<close> promise of call
  \<open>c\<close> settles and the wrapper resumes.
\<close>

datatype ('e, 'b) net_event =
  Call nat string real
| Settle nat "'e + 'b Response" real real

fun net_step :: "('e, 'b) net_event \<Rightarrow> net_state \<Rightarrow> net_state" where
  "net_step (Call c u now) s =
     (if Some (window_fetch s) = installed s
      then s\<lparr>in_flight := in_flight s @ [(c, u, now)]\<rparr>
      else s)"
| "net_step (Settle c outcome now date) s =
     (case find (\<lambda>(c', _, _). c' = c) (in_flight s) of
        None \<Rightarrow> s
      | Some (_, u, start) \<Rightarrow>
          snd (fetch_wrapper_settle u start outcome now date
                 (s\<lparr>in_flight := filter (\<lambda>(c', _, _). c' \<noteq> c) (in_flight s)\<rparr>)))"

definition run_net :: "('e, 'b) net_event list \<Rightarrow> net_state \<Rightarrow> net_state" where
  "run_net evs s = fold net_step evs s"

text \<open>
  A call that went through the wrapper and has settled: \<^verbatim>\<open>args[0].toString()\<close>,
  \<^verbatim>\<open>startTime\<close>, the outcome, and the two clock readings taken after it.
\<close>

type_synonym ('e, 'b) completed_call = "string \<times> real \<times> ('e + 'b Response) \<times> real \<times> real"

fun complete :: "('e, 'b) completed_call \<Rightarrow> net_state \<Rightarrow> net_state" where
  "complete (u, start, outcome, now, date) s =
     snd (fetch_wrapper_settle u start outcome now date s)"

definition run_completed :: "('e, 'b) completed_call list \<Rightarrow> net_state \<Rightarrow> net_state" where
  "run_completed cs s = fold complete cs s"

text \<open>The record the wrapper builds for a completed call.\<close>

fun recorded :: "('e, 'b) completed_call \<Rightarrow> NetworkRequest" where
  "recorded (u, start, Inr response, now, date) =
     \<lparr>url = u, status = response_status response,
      duration = parseFloat_toFixed 2 (now - start), timestamp = date\<rparr>"
| "recorded (u, start, Inl err, now, date) =
     \<lparr>url = u, status = 0, duration = now - start, timestamp = date\<rparr>"

text \<open>Eight calls that complete one after the other, two of them failing.\<close>

definition eight_calls :: "(unit, unit) completed_call list" where
  "eight_calls =
     [(''/a'', 0, Inr (Response 200 ()), 10, 1000),
      (''/b'', 10, Inr (Response 404 ()), 25, 1015),
      (''/c'', 25, Inl (), 30, 1020),
      (''/d'', 30, Inr (Response 200 ()), 41, 1031),
      (''/e'', 41, Inr (Response 500 ()), 50, 1040),
      (''/f'', 50, Inl (), 52, 1042),
      (''/g'', 52, Inr (Response 200 ()), 60, 1050),
      (''/h'', 60, Inr (Response 204 ()), 75, 1065)]"

section \<open>Stopping the collectors\<close>

text \<open>
  The hook is started on a page whose \<^verbatim>\<open>fetch\<close> is \<open>HostFetch 0\<close>, a call is made at
  100 ms, and the hook is stopped while the call is still waiting for its response.
\<close>

definition stopped_with_call_in_flight :: net_state where
  "stopped_with_call_in_flight =
     useNetworkMonitor_cleanup (fst (useNetworkMonitor_effect (net_initial (HostFetch 0))))
       (run_net [Call 1 ''/api/users'' 100 :: (unit, unit) net_event]
          (snd (useNetworkMonitor_effect (net_initial (HostFetch 0)))))"

text \<open>The hook is stopped after one call has been made and has completed.\<close>

definition stopped_after_one_call :: net_state where
  "stopped_after_one_call =
     useNetworkMonitor_cleanup (fst (useNetworkMonitor_effect (net_initial (HostFetch 0))))
       (run_net [Call 1 ''/api/users'' 100,
                 Settle 1 (Inr (Response 200 ()) :: unit + unit Response) 130 1700000000000]
          (snd (useNetworkMonitor_effect (net_initial (HostFetch 0)))))"

section \<open>Properties of the frame loop\<close>




lemma loop_pending:
  "raf_pending (loop now s) = raf_pending s @ [raf_next s]"
  "animationFrameId (loop now s) = raf_next s"
  by (simp_all add: loop_def Let_def requestAnimationFrame_loop_def setFps_def)


lemma frame_one_pending:
  assumes "raf_pending s = [animationFrameId s]"
  shows "raf_pending (frame now s) = [animationFrameId (frame now s)]"
  using assms by (simp add: frame_def loop_pending)


lemma run_frames_Nil: "run_frames [] s = s"
  by (simp add: run_frames_def)

lemma run_frames_Cons: "run_frames (t # ts) s = run_frames ts (frame t s)"
  by (simp add: run_frames_def)


lemma run_frames_one_pending:
  "raf_pending s = [animationFrameId s] \<Longrightarrow>
   raf_pending (run_frames ts s) = [animationFrameId (run_frames ts s)]"
proof (induction ts arbitrary: s)
  case Nil
  then show ?case by (simp add: run_frames_Nil)
next
  case (Cons t ts)
  from Cons.IH [OF frame_one_pending [OF Cons.prems, of t]] show ?case
    by (simp add: run_frames_Cons)
qed




lemma useFps_effect_one_pending:
  "raf_pending host = [] \<Longrightarrow>
   raf_pending (useFps_effect t0 t1 host) = [animationFrameId (useFps_effect t0 t1 host)]"
  by (simp add: useFps_effect_def loop_pending)







section \<open>Properties of the heap sampler\<close>

lemma interval_callback_Some:
  "interval_callback (Some m) s =
     Inr (setMemory (Some \<lparr>used = usedJSHeapSize m / 1024 / 1024,
                           limit = jsHeapSizeLimit m / 1024 / 1024\<rparr>) s)"
  by (simp add: interval_callback_def get_usedJSHeapSize_def get_jsHeapSizeLimit_def)

lemma interval_callback_None: "interval_callback None s = Inr s"
  by (simp add: interval_callback_def)

text \<open>
  C5 as stated fails: on a tick that finds no \<^verbatim>\<open>performance.memory\<close> the callback
  passes nothing to \<^verbatim>\<open>setMemory\<close>, so that tick emits no value, and after a tick
  that found the capability the exposed value of such a tick is the old sample, not
  \<^verbatim>\<open>null\<close>.
\<close>

theorem useMemory_absent_capability_emits_nothing:
  "interval_callback None useMemory_effect = Inr useMemory_effect \<and>
   setMemory_calls (tick None useMemory_effect) = [] \<and>
   memory (tick None (tick (Some \<lparr>usedJSHeapSize = 10485760, jsHeapSizeLimit = 2147483648\<rparr>)
                        useMemory_effect)) = Some \<lparr>used = 10, limit = 2048\<rparr>"
  by (simp add: tick_def interval_callback_None interval_callback_Some setMemory_def
      useMemory_effect_def)

text \<open>
  C5, amended.  The callback of the timer never raises.  On a tick that finds the heap
  capability it emits exactly one value, the sample with both byte counts divided by
  \<open>1024 * 1024\<close>, which becomes the exposed value.  On a tick that finds no capability
  it emits nothing and leaves the exposed value as it was (\<^verbatim>\<open>null\<close> as long as no
  sample has been emitted).
\<close>

theorem useMemory_tick_emits_sample_or_nothing:
  "(\<exists>s'. interval_callback pm s = Inr s' \<and>
      (case pm of
         None \<Rightarrow> s' = s
       | Some m \<Rightarrow>
           setMemory_calls s' = setMemory_calls s @
             [Some \<lparr>used = usedJSHeapSize m / (1024 * 1024),
                    limit = jsHeapSizeLimit m / (1024 * 1024)\<rparr>] \<and>
           memory s' = Some \<lparr>used = usedJSHeapSize m / (1024 * 1024),
                               limit = jsHeapSizeLimit m / (1024 * 1024)\<rparr>)) \<and>
   (interval_active s \<longrightarrow>
      (case interval_callback pm s of Inl e \<Rightarrow> False | Inr s' \<Rightarrow> tick pm s = s')) \<and>
   memory (run_ticks (replicate n None) useMemory_effect) = None \<and>
   setMemory_calls (run_ticks (replicate n None) useMemory_effect) = []"
proof -
  have one: "\<exists>s'. interval_callback pm s = Inr s' \<and>
      (case pm of
         None \<Rightarrow> s' = s
       | Some m \<Rightarrow>
           setMemory_calls s' = setMemory_calls s @
             [Some \<lparr>used = usedJSHeapSize m / (1024 * 1024),
                    limit = jsHeapSizeLimit m / (1024 * 1024)\<rparr>] \<and>
           memory s' = Some \<lparr>used = usedJSHeapSize m / (1024 * 1024),
                               limit = jsHeapSizeLimit m / (1024 * 1024)\<rparr>)"
    by (cases pm) (simp_all add: interval_callback_None interval_callback_Some setMemory_def)
  have idle: "run_ticks (replicate n None) useMemory_effect = useMemory_effect"
    by (induction n) (simp_all add: run_ticks_def tick_def interval_callback_None)
  have timer: "interval_active s \<longrightarrow>
      (case interval_callback pm s of Inl e \<Rightarrow> False | Inr s' \<Rightarrow> tick pm s = s')"
    by (cases pm) (simp_all add: tick_def interval_callback_None interval_callback_Some)
  from one timer idle show ?thesis
    by (simp add: useMemory_effect_def)
qed

text \<open>
  A heap of 10 MB used out of 2048 MB is sampled on the first tick; the second tick finds
  no capability and leaves the sample.
\<close>

theorem useMemory_tick_emits_sample_or_nothing_witness:
  "setMemory_calls (tick (Some \<lparr>usedJSHeapSize = 10485760, jsHeapSizeLimit = 2147483648\<rparr>)
                      useMemory_effect) = [Some \<lparr>used = 10, limit = 2048\<rparr>] \<and>
   tick None (tick (Some \<lparr>usedJSHeapSize = 10485760, jsHeapSizeLimit = 2147483648\<rparr>)
                useMemory_effect) =
     tick (Some \<lparr>usedJSHeapSize = 10485760, jsHeapSizeLimit = 2147483648\<rparr>) useMemory_effect"
proof -
  let ?m = "\<lparr>usedJSHeapSize = 10485760, jsHeapSizeLimit = 2147483648\<rparr>"
  have active: "interval_active useMemory_effect" by (simp add: useMemory_effect_def)
  from useMemory_tick_emits_sample_or_nothing [of "Some ?m" useMemory_effect 0] active
  obtain s1 where s1: "tick (Some ?m) useMemory_effect = s1"
      "interval_callback (Some ?m) useMemory_effect = Inr s1"
      "setMemory_calls s1 = setMemory_calls useMemory_effect @ [Some \<lparr>used = 10, limit = 2048\<rparr>]"
    by auto
  have active1: "interval_active s1"
    using s1(2) by (auto simp add: interval_callback_Some setMemory_def useMemory_effect_def)
  from useMemory_tick_emits_sample_or_nothing [of None s1 0] active1
  have "tick None s1 = s1" by auto
  with s1 show ?thesis by (simp add: useMemory_effect_def)
qed

section \<open>Properties of the vitals observer\<close>

lemma try_observe:
  "try_catch (observe supported m) (console_warn msg) s =
     Inr (s\<lparr>observing := (observing s)(m := supported (entry_type m) \<or> observing s m),
            console := console s @ (if supported (entry_type m) then [] else [msg])\<rparr>)"
  by (simp add: try_catch_def observe_def console_warn_def)

lemma observing_all:
  "(\<lambda>m. False)(LCP := supported ''largest-contentful-paint'', CLS := supported ''layout-shift'',
      FID := supported ''first-input'', INP := supported ''event'') = (\<lambda>m. supported (entry_type m))"
proof
  fix m
  show "((\<lambda>m. False)(LCP := supported ''largest-contentful-paint'', CLS := supported ''layout-shift'',
      FID := supported ''first-input'', INP := supported ''event'')) m = supported (entry_type m)"
    by (cases m) simp_all
qed

lemma effect_result: "useWebVitals_effect supported = Inr (effect_state supported)"
  unfolding useWebVitals_effect_def seq_def try_observe
  by (simp add: vitals_initial_def effect_state_def observing_all)

lemma cls_fold:
  "fold cls_entry es s =
     s\<lparr>clsValue := clsValue s + sum_list (map shift_value (unflagged es)),
       vitals := (vitals s)\<lparr>cls := (if unflagged es = [] then cls (vitals s)
                                     else Some (clsValue s + sum_list (map shift_value (unflagged es))))\<rparr>\<rparr>"
  by (induction es arbitrary: s) (simp_all add: unflagged_def cls_entry_def setVitals_cls_def Let_def add.assoc)

lemma clsObserver_callback_eq:
  "clsObserver_callback es s =
     s\<lparr>clsValue := clsValue s + sum_list (map shift_value (unflagged es)),
       vitals := (vitals s)\<lparr>cls := (if unflagged es = [] then cls (vitals s)
                                     else Some (clsValue s + sum_list (map shift_value (unflagged es))))\<rparr>\<rparr>"
  by (simp add: clsObserver_callback_def cls_fold)

lemma inp_entry_frame:
  "\<exists>W I. inp_entry e s = s\<lparr>worstInp := W, vitals := (vitals s)\<lparr>inp := I\<rparr>\<rparr>"
proof (cases "entry_duration e \<noteq> 0 \<and> entry_duration e > worstInp s")
  case True
  then have "inp_entry e s =
      s\<lparr>worstInp := entry_duration e, vitals := (vitals s)\<lparr>inp := Some (entry_duration e)\<rparr>\<rparr>"
    by (simp add: inp_entry_def setVitals_inp_def)
  then show ?thesis by blast
next
  case False
  then have "inp_entry e s = s\<lparr>worstInp := worstInp s, vitals := (vitals s)\<lparr>inp := inp (vitals s)\<rparr>\<rparr>"
    by (auto simp add: inp_entry_def)
  then show ?thesis by blast
qed

lemma inp_fold_frame:
  "\<exists>W I. fold inp_entry es s = s\<lparr>worstInp := W, vitals := (vitals s)\<lparr>inp := I\<rparr>\<rparr>"
proof (induction es arbitrary: s)
  case Nil
  have "s = s\<lparr>worstInp := worstInp s, vitals := (vitals s)\<lparr>inp := inp (vitals s)\<rparr>\<rparr>" by simp
  then show ?case by (metis fold_simps(1))
next
  case (Cons e es)
  obtain W I where 1: "inp_entry e s = s\<lparr>worstInp := W, vitals := (vitals s)\<lparr>inp := I\<rparr>\<rparr>"
    using inp_entry_frame by blast
  obtain W' I' where 2: "fold inp_entry es (inp_entry e s) =
      (inp_entry e s)\<lparr>worstInp := W', vitals := (vitals (inp_entry e s))\<lparr>inp := I'\<rparr>\<rparr>"
    using Cons.IH by blast
  have "fold inp_entry (e # es) s = s\<lparr>worstInp := W', vitals := (vitals s)\<lparr>inp := I'\<rparr>\<rparr>"
    by (simp add: 2) (simp add: 1)
  then show ?case by blast
qed

lemma fold_max_ge: "(w::real) \<le> fold max ds w"
proof (induction ds arbitrary: w)
  case Nil
  show ?case by simp
next
  case (Cons d ds)
  have "max d w \<le> fold max ds (max d w)" by (rule Cons.IH)
  then show ?case by simp
qed

lemma inp_fold:
  "0 \<le> worstInp s \<Longrightarrow>
   fold inp_entry es s =
     s\<lparr>worstInp := fold max (map entry_duration es) (worstInp s),
       vitals := (vitals s)\<lparr>inp :=
         (if fold max (map entry_duration es) (worstInp s) > worstInp s
          then Some (fold max (map entry_duration es) (worstInp s))
          else inp (vitals s))\<rparr>\<rparr>"
proof (induction es arbitrary: s)
  case Nil
  show ?case by simp
next
  case (Cons e es)
  let ?d = "entry_duration e" and ?w = "worstInp s"
  show ?case
  proof (cases "?d > ?w")
    case True
    with Cons.prems have step: "inp_entry e s =
        s\<lparr>worstInp := ?d, vitals := (vitals s)\<lparr>inp := Some ?d\<rparr>\<rparr>"
      by (simp add: inp_entry_def setVitals_inp_def)
    from True Cons.prems have nonneg: "0 \<le> worstInp (inp_entry e s)" by (simp add: step)
    have m: "max ?d ?w = ?d" using True by simp
    have ge: "?d \<le> fold max (map entry_duration es) ?d" by (rule fold_max_ge)
    show ?thesis
      using Cons.IH [OF nonneg] True ge by (simp add: step m) 
  next
    case False
    then have step: "inp_entry e s = s" by (auto simp add: inp_entry_def)
    have m: "max ?d ?w = ?w" using False by simp
    show ?thesis using Cons.IH [OF Cons.prems] by (simp add: step m)
  qed
qed

lemma deliver_observing: "observing (deliver ev s) = observing s"
proof (cases ev)
  case (LcpEntries es)
  then show ?thesis by (simp add: lcpObserver_callback_def setVitals_lcp_def Let_def)
next
  case (ClsEntries es)
  then show ?thesis by (simp add: clsObserver_callback_eq)
next
  case (FidEntries es)
  then show ?thesis by (simp add: fidObserver_callback_def setVitals_fid_def split: list.split)
next
  case (InpEntries es)
  obtain W I where "fold inp_entry es s = s\<lparr>worstInp := W, vitals := (vitals s)\<lparr>inp := I\<rparr>\<rparr>"
    using inp_fold_frame by blast
  with InpEntries show ?thesis by (simp add: inpObserver_callback_def)
qed

lemma run_vitals_Nil: "run_vitals [] s = s"
  by (simp add: run_vitals_def)

lemma run_vitals_Cons: "run_vitals (ev # evs) s = run_vitals evs (deliver ev s)"
  by (simp add: run_vitals_def)

lemma run_vitals_observing: "observing (run_vitals evs s) = observing s"
  by (induction evs arbitrary: s) (simp_all add: run_vitals_Nil run_vitals_Cons deliver_observing)

lemma unflagged_append: "unflagged (xs @ ys) = unflagged xs @ unflagged ys"
  by (simp add: unflagged_def)

lemma unflagged_Nil: "unflagged [] = []"
  by (simp add: unflagged_def)

lemma deliver_cls:
  assumes "observing s CLS"
  shows "clsValue (deliver ev s) = clsValue s + sum_list (map shift_value (unflagged (shifts_of ev)))"
    and "cls (vitals (deliver ev s)) =
           (if unflagged (shifts_of ev) = [] then cls (vitals s)
            else Some (clsValue s + sum_list (map shift_value (unflagged (shifts_of ev)))))"
proof -
  obtain W I where inp: "\<And>es. ev = InpEntries es \<Longrightarrow>
      fold inp_entry es s = s\<lparr>worstInp := W, vitals := (vitals s)\<lparr>inp := I\<rparr>\<rparr>"
    using inp_fold_frame by (cases ev) (auto, metis)
  show "clsValue (deliver ev s) = clsValue s + sum_list (map shift_value (unflagged (shifts_of ev)))"
    using assms inp
    by (cases ev)
      (simp_all add: lcpObserver_callback_def setVitals_lcp_def Let_def clsObserver_callback_eq
        fidObserver_callback_def setVitals_fid_def inpObserver_callback_def unflagged_Nil
        split: list.split)
  show "cls (vitals (deliver ev s)) =
           (if unflagged (shifts_of ev) = [] then cls (vitals s)
            else Some (clsValue s + sum_list (map shift_value (unflagged (shifts_of ev)))))"
    using assms inp
    by (cases ev)
      (simp_all add: lcpObserver_callback_def setVitals_lcp_def Let_def clsObserver_callback_eq
        fidObserver_callback_def setVitals_fid_def inpObserver_callback_def unflagged_Nil
        split: list.split)
qed

lemma run_cls:
  "observing s CLS \<Longrightarrow>
   clsValue (run_vitals evs s) =
     clsValue s + sum_list (map shift_value (unflagged (concat (map shifts_of evs)))) \<and>
   cls (vitals (run_vitals evs s)) =
     (if unflagged (concat (map shifts_of evs)) = [] then cls (vitals s)
      else Some (clsValue s + sum_list (map shift_value (unflagged (concat (map shifts_of evs))))))"
proof (induction evs arbitrary: s)
  case Nil
  show ?case by (simp add: run_vitals_Nil unflagged_Nil)
next
  case (Cons ev evs)
  from Cons.prems have obs: "observing (deliver ev s) CLS" by (simp add: deliver_observing)
  show ?case
    using Cons.IH [OF obs] deliver_cls [OF Cons.prems, of ev]
    by (simp add: run_vitals_Cons unflagged_append add.assoc)
qed

lemma deliver_inp:
  assumes "observing s INP" and "0 \<le> worstInp s"
  shows "worstInp (deliver ev s) = fold max (map entry_duration (events_of ev)) (worstInp s)"
    and "inp (vitals (deliver ev s)) =
           (if fold max (map entry_duration (events_of ev)) (worstInp s) > worstInp s
            then Some (fold max (map entry_duration (events_of ev)) (worstInp s))
            else inp (vitals s))"
  using assms
  by (cases ev;
      simp add: lcpObserver_callback_def setVitals_lcp_def Let_def clsObserver_callback_eq
        fidObserver_callback_def setVitals_fid_def inpObserver_callback_def inp_fold
        split: list.split)+

lemma run_inp:
  "observing s INP \<Longrightarrow> 0 \<le> worstInp s \<Longrightarrow>
   worstInp (run_vitals evs s) =
     fold max (map entry_duration (concat (map events_of evs))) (worstInp s) \<and>
   inp (vitals (run_vitals evs s)) =
     (if fold max (map entry_duration (concat (map events_of evs))) (worstInp s) > worstInp s
      then Some (fold max (map entry_duration (concat (map events_of evs))) (worstInp s))
      else inp (vitals s))"
proof (induction evs arbitrary: s)
  case Nil
  show ?case by (simp add: run_vitals_Nil)
next
  case (Cons ev evs)
  let ?w1 = "fold max (map entry_duration (events_of ev)) (worstInp s)"
  let ?w2 = "fold max (map entry_duration (concat (map events_of evs))) ?w1"
  from Cons.prems have obs: "observing (deliver ev s) INP" by (simp add: deliver_observing)
  have w1: "worstInp (deliver ev s) = ?w1"
    and i1: "inp (vitals (deliver ev s)) = (if ?w1 > worstInp s then Some ?w1 else inp (vitals s))"
    using deliver_inp [OF Cons.prems, of ev] by simp_all
  have ge1: "worstInp s \<le> ?w1" by (rule fold_max_ge)
  have ge2: "?w1 \<le> ?w2" by (rule fold_max_ge)
  from ge1 Cons.prems have nonneg: "0 \<le> worstInp (deliver ev s)" by (simp add: w1)
  have "worstInp (run_vitals (ev # evs) s) = ?w2"
    using Cons.IH [OF obs nonneg] by (simp add: run_vitals_Cons w1)
  moreover have "inp (vitals (run_vitals (ev # evs) s)) =
      (if ?w2 > worstInp s then Some ?w2 else inp (vitals s))"
    using Cons.IH [OF obs nonneg] ge1 ge2 by (auto simp add: run_vitals_Cons w1 i1)
  ultimately show ?case by simp
qed

lemma Max_positive_in:
  assumes "[d\<leftarrow>ds. 0 < d] \<noteq> []"
  shows "Max (set [d\<leftarrow>ds. 0 < d]) \<in> set ds" and "(0::real) < Max (set [d\<leftarrow>ds. 0 < d])"
proof -
  define q where "q = [d\<leftarrow>ds. 0 < d]"
  have "q \<noteq> []" unfolding q_def by (rule assms)
  then have "Max (set q) \<in> set q" by simp
  then have "Max (set q) \<in> set ds \<and> 0 < Max (set q)" by (simp add: q_def)
  then show "Max (set [d\<leftarrow>ds. 0 < d]) \<in> set ds" and "(0::real) < Max (set [d\<leftarrow>ds. 0 < d])"
    by (simp_all only: q_def)
qed

lemma fold_max_positive:
  "fold max ds (0::real) = (if [d\<leftarrow>ds. 0 < d] = [] then 0 else Max (set [d\<leftarrow>ds. 0 < d]))"
proof -
  have all: "fold max ds (0::real) = Max (set (0 # ds))"
    by (simp only: Max.set_eq_fold)
  show ?thesis
  proof (cases "[d\<leftarrow>ds. 0 < d] = []")
    case True
    then have "\<forall>d\<in>set ds. d \<le> 0" by (auto simp add: filter_empty_conv not_less)
    then have "Max (set (0 # ds)) = 0"
      by (intro Max_eqI) auto
    with True all show ?thesis by simp
  next
    case False
    let ?M = "Max (set [d\<leftarrow>ds. 0 < d])"
    have M: "?M \<in> set ds" "0 < ?M" using Max_positive_in [OF False] by simp_all
    have "Max (set (0 # ds)) = ?M"
    proof (rule Max_eqI)
      show "finite (set (0 # ds))" by simp
      show "y \<le> ?M" if "y \<in> set (0 # ds)" for y
      proof (cases "0 < y")
        case True
        with that have "y \<in> set [d\<leftarrow>ds. 0 < d]" by auto
        then show ?thesis by simp
      next
        case False
        with M show ?thesis by linarith
      qed
      from M show "?M \<in> set (0 # ds)" by simp
    qed
    with False all show ?thesis by simp
  qed
qed

lemmas callback_simps =
  lcpObserver_callback_def setVitals_lcp_def Let_def clsObserver_callback_eq
  fidObserver_callback_def setVitals_fid_def inpObserver_callback_def

lemma deliver_unobserved:
  assumes "\<not> observing s m"
  shows "field m (vitals (deliver ev s)) = field m (vitals s)"
proof -
  obtain W I where inp: "\<And>es. ev = InpEntries es \<Longrightarrow>
      fold inp_entry es s = s\<lparr>worstInp := W, vitals := (vitals s)\<lparr>inp := I\<rparr>\<rparr>"
    using inp_fold_frame by (cases ev) (auto, metis)
  show ?thesis
    using assms inp
    by (cases ev; cases m; simp add: callback_simps split: list.split)
qed

lemma run_unobserved:
  "\<not> observing s m \<Longrightarrow> field m (vitals (run_vitals evs s)) = field m (vitals s)"
proof (induction evs arbitrary: s)
  case Nil
  show ?case by (simp add: run_vitals_Nil)
next
  case (Cons ev evs)
  from Cons.prems have "\<not> observing (deliver ev s) m" by (simp add: deliver_observing)
  from Cons.IH [OF this] deliver_unobserved [OF Cons.prems, of ev]
  show ?case by (simp add: run_vitals_Cons)
qed

lemma inp_fold_same:
  "worstInp s = worstInp t \<Longrightarrow> inp (vitals s) = inp (vitals t) \<Longrightarrow>
   worstInp (fold inp_entry es s) = worstInp (fold inp_entry es t) \<and>
   inp (vitals (fold inp_entry es s)) = inp (vitals (fold inp_entry es t))"
proof (induction es arbitrary: s t)
  case Nil
  then show ?case by simp
next
  case (Cons e es)
  from Cons.prems have "worstInp (inp_entry e s) = worstInp (inp_entry e t)"
      and "inp (vitals (inp_entry e s)) = inp (vitals (inp_entry e t))"
    by (simp_all add: inp_entry_def setVitals_inp_def)
  from Cons.IH [OF this] show ?case by simp
qed

lemma deliver_same_stream:
  assumes "same_stream m s t"
  shows "same_stream m (deliver ev s) (deliver ev t)"
proof -
  obtain W I where inp_s: "\<And>es. ev = InpEntries es \<Longrightarrow>
      fold inp_entry es s = s\<lparr>worstInp := W, vitals := (vitals s)\<lparr>inp := I\<rparr>\<rparr>"
    using inp_fold_frame by (cases ev) (auto, metis)
  obtain W' I' where inp_t: "\<And>es. ev = InpEntries es \<Longrightarrow>
      fold inp_entry es t = t\<lparr>worstInp := W', vitals := (vitals t)\<lparr>inp := I'\<rparr>\<rparr>"
    using inp_fold_frame by (cases ev) (auto, metis)
  show ?thesis
  proof (cases "m = INP \<and> (\<exists>es. ev = InpEntries es)")
    case True
    then obtain es where ev: "ev = InpEntries es" and m: "m = INP" by blast
    from assms m have "worstInp s = worstInp t" "inp (vitals s) = inp (vitals t)"
        "observing s INP = observing t INP"
      by (simp_all add: same_stream_def)
    moreover have "observing (deliver ev s) INP = observing s INP"
        "observing (deliver ev t) INP = observing t INP"
      by (simp_all add: deliver_observing)
    moreover have "deliver ev s = (if observing s INP then fold inp_entry es s else s)"
        "deliver ev t = (if observing t INP then fold inp_entry es t else t)"
      by (simp_all add: ev inpObserver_callback_def)
    ultimately show ?thesis
      using inp_fold_same [of s t es] by (simp add: same_stream_def m)
  next
    case False
    with assms inp_s inp_t show ?thesis
      by (cases ev; cases m; simp add: same_stream_def callback_simps split: list.split)
  qed
qed

lemma run_same_stream:
  "same_stream m s t \<Longrightarrow> same_stream m (run_vitals evs s) (run_vitals evs t)"
proof (induction evs arbitrary: s t)
  case Nil
  then show ?case by (simp add: run_vitals_Nil)
next
  case (Cons ev evs)
  from Cons.IH [OF deliver_same_stream [OF Cons.prems]] show ?case
    by (simp add: run_vitals_Cons)
qed

text \<open>
  C6.  On a host that supports layout-shift entries, after any sequence of deliveries the
  accumulator \<^verbatim>\<open>clsValue\<close> is the sum of \<^verbatim>\<open>value\<close> over the layout-shift entries
  delivered so far whose \<^verbatim>\<open>hadRecentInput\<close> is false, entries of other types and
  flagged entries not counting; the exposed \<^verbatim>\<open>cls\<close> is that sum from the first
  such entry on, and \<^verbatim>\<open>null\<close> before it.
\<close>

theorem useWebVitals_cls_sums_unflagged_shifts:
  assumes "supported ''layout-shift''"
  shows "\<exists>s0. useWebVitals_effect supported = Inr s0 \<and>
     clsValue (run_vitals evs s0) =
       sum_list (map shift_value (unflagged (concat (map shifts_of evs)))) \<and>
     cls (vitals (run_vitals evs s0)) =
       (if unflagged (concat (map shifts_of evs)) = [] then None
        else Some (sum_list (map shift_value (unflagged (concat (map shifts_of evs))))))"
proof -
  from assms have obs: "observing (effect_state supported) CLS"
    by (simp add: effect_state_def)
  have start: "clsValue (effect_state supported) = 0" "cls (vitals (effect_state supported)) = None"
    by (simp_all add: effect_state_def)
  from run_cls [OF obs, of evs] start effect_result [of supported] show ?thesis
    by simp
qed

text \<open>The entries 0.05, 0.2 (flagged) and 0.03 give a final \<^verbatim>\<open>cls\<close> of 0.08.\<close>

theorem useWebVitals_cls_sums_unflagged_shifts_witness:
  "\<exists>s0. useWebVitals_effect (\<lambda>_. True) = Inr s0 \<and>
     cls (vitals (run_vitals
       [ClsEntries [\<lparr>shift_value = 0.05, hadRecentInput = False\<rparr>,
                    \<lparr>shift_value = 0.2, hadRecentInput = True\<rparr>,
                    \<lparr>shift_value = 0.03, hadRecentInput = False\<rparr>]] s0)) = Some 0.08"
  using useWebVitals_cls_sums_unflagged_shifts [of "\<lambda>_. True"
      "[ClsEntries [\<lparr>shift_value = 0.05, hadRecentInput = False\<rparr>,
                    \<lparr>shift_value = 0.2, hadRecentInput = True\<rparr>,
                    \<lparr>shift_value = 0.03, hadRecentInput = False\<rparr>]]"]
  by (auto simp add: unflagged_def)

text \<open>
  C7.  On a host that supports event entries, after any sequence of deliveries
  \<^verbatim>\<open>worstInp\<close> is the maximum of 0 and the durations of the event entries delivered
  so far, and the exposed \<^verbatim>\<open>inp\<close> is the maximum of the durations that passed the
  callback's guard (those greater than zero): the worst one, not the latest and not an
  average; it is \<^verbatim>\<open>null\<close> while there is none.
\<close>

theorem useWebVitals_inp_is_running_maximum:
  assumes "supported ''event''"
  shows "\<exists>s0. useWebVitals_effect supported = Inr s0 \<and>
     worstInp (run_vitals evs s0) =
       Max (set (0 # map entry_duration (concat (map events_of evs)))) \<and>
     inp (vitals (run_vitals evs s0)) =
       (if [d\<leftarrow>map entry_duration (concat (map events_of evs)). 0 < d] = [] then None
        else Some (Max (set [d\<leftarrow>map entry_duration (concat (map events_of evs)). 0 < d])))"
proof -
  let ?ds = "map entry_duration (concat (map events_of evs))"
  from assms have obs: "observing (effect_state supported) INP"
    by (simp add: effect_state_def)
  have start: "worstInp (effect_state supported) = 0" "inp (vitals (effect_state supported)) = None"
    by (simp_all add: effect_state_def)
  have run: "worstInp (run_vitals evs (effect_state supported)) = fold max ?ds 0"
      "inp (vitals (run_vitals evs (effect_state supported))) =
         (if fold max ?ds 0 > 0 then Some (fold max ?ds 0) else None)"
    using run_inp [OF obs, of evs] start by simp_all
  have w: "fold max ?ds 0 = Max (set (0 # ?ds))"
    by (simp only: Max.set_eq_fold)
  have i: "(if fold max ?ds 0 > 0 then Some (fold max ?ds 0) else None) =
      (if [d\<leftarrow>?ds. 0 < d] = [] then None else Some (Max (set [d\<leftarrow>?ds. 0 < d])))"
  proof (cases "[d\<leftarrow>?ds. 0 < d] = []")
    case True
    then show ?thesis using fold_max_positive [of ?ds] by simp
  next
    case False
    then show ?thesis using fold_max_positive [of ?ds] Max_positive_in(2) [OF False] by simp
  qed
  show ?thesis
    using effect_result [of supported] run w i by simp
qed

text \<open>The durations 120, 340, 90, 500, 200 give a final \<^verbatim>\<open>inp\<close> of 500.\<close>

theorem useWebVitals_inp_is_running_maximum_witness:
  "\<exists>s0. useWebVitals_effect (\<lambda>_. True) = Inr s0 \<and>
     inp (vitals (run_vitals
       [InpEntries [\<lparr>entry_duration = 120\<rparr>, \<lparr>entry_duration = 340\<rparr>, \<lparr>entry_duration = 90\<rparr>,
                    \<lparr>entry_duration = 500\<rparr>, \<lparr>entry_duration = 200\<rparr>]] s0)) = Some 500"
  using useWebVitals_inp_is_running_maximum [of "\<lambda>_. True"
      "[InpEntries [\<lparr>entry_duration = 120\<rparr>, \<lparr>entry_duration = 340\<rparr>, \<lparr>entry_duration = 90\<rparr>,
                    \<lparr>entry_duration = 500\<rparr>, \<lparr>entry_duration = 200\<rparr>]]"]
  by auto

text \<open>
  C8.  Whatever subset of the four entry types the host rejects, the effect returns
  normally (every \<^verbatim>\<open>observe\<close> that raises is caught), exactly the observers of the
  supported types are subscribed, the field of each rejected metric stays \<^verbatim>\<open>null\<close>
  after any sequence of deliveries, and the field of each supported metric has the value
  it has on a host that supports all four.
\<close>

theorem useWebVitals_unsupported_streams_isolated:
  "\<exists>s0 s1. useWebVitals_effect supported = Inr s0 \<and>
     useWebVitals_effect (\<lambda>_. True) = Inr s1 \<and>
     (\<forall>m. observing s0 m = supported (entry_type m)) \<and>
     (\<forall>m evs. \<not> supported (entry_type m) \<longrightarrow>
        field m (vitals (run_vitals evs s0)) = None) \<and>
     (\<forall>m evs. supported (entry_type m) \<longrightarrow>
        field m (vitals (run_vitals evs s0)) = field m (vitals (run_vitals evs s1)))"
proof -
  let ?s0 = "effect_state supported" and ?s1 = "effect_state (\<lambda>_. True)"
  have obs: "observing ?s0 m = supported (entry_type m)" for m
    by (simp add: effect_state_def)
  have none: "field m (vitals ?s0) = None" for m
    by (cases m) (simp_all add: effect_state_def)
  have dead: "field m (vitals (run_vitals evs ?s0)) = None"
    if "\<not> supported (entry_type m)" for m evs
    using run_unobserved [of ?s0 m evs] that obs none by simp
  have live: "field m (vitals (run_vitals evs ?s0)) = field m (vitals (run_vitals evs ?s1))"
    if "supported (entry_type m)" for m evs
  proof -
    from that have "same_stream m ?s0 ?s1"
      by (cases m) (simp_all add: same_stream_def effect_state_def)
    from run_same_stream [OF this, of evs] show ?thesis by (simp add: same_stream_def)
  qed
  from obs dead live effect_result [of supported] effect_result [of "\<lambda>_. True"]
  show ?thesis by blast
qed

text \<open>A host without event timing: INP stays \<^verbatim>\<open>null\<close>, CLS is observed as usual.\<close>

theorem useWebVitals_unsupported_streams_isolated_witness:
  "\<exists>s0 s1. useWebVitals_effect (\<lambda>t. t \<noteq> ''event'') = Inr s0 \<and>
     useWebVitals_effect (\<lambda>_. True) = Inr s1 \<and>
     observing s0 CLS \<and> \<not> observing s0 INP \<and>
     field INP (vitals (run_vitals
       [InpEntries [\<lparr>entry_duration = 120\<rparr>],
        ClsEntries [\<lparr>shift_value = 0.05, hadRecentInput = False\<rparr>]] s0)) = None \<and>
     field CLS (vitals (run_vitals
       [InpEntries [\<lparr>entry_duration = 120\<rparr>],
        ClsEntries [\<lparr>shift_value = 0.05, hadRecentInput = False\<rparr>]] s0)) =
     field CLS (vitals (run_vitals
       [InpEntries [\<lparr>entry_duration = 120\<rparr>],
        ClsEntries [\<lparr>shift_value = 0.05, hadRecentInput = False\<rparr>]] s1))"
proof -
  obtain s0 s1 where eff: "useWebVitals_effect (\<lambda>t. t \<noteq> ''event'') = Inr s0"
      "useWebVitals_effect (\<lambda>_. True) = Inr s1"
    and obs: "\<forall>m. observing s0 m = (entry_type m \<noteq> ''event'')"
    and dead: "\<forall>m evs. \<not> entry_type m \<noteq> ''event'' \<longrightarrow>
        field m (vitals (run_vitals evs s0)) = None"
    and live: "\<forall>m evs. entry_type m \<noteq> ''event'' \<longrightarrow>
        field m (vitals (run_vitals evs s0)) = field m (vitals (run_vitals evs s1))"
    using useWebVitals_unsupported_streams_isolated [of "\<lambda>t. t \<noteq> ''event''"] by blast
  have d: "\<not> entry_type INP \<noteq> ''event''" and l: "entry_type CLS \<noteq> ''event''"
    by simp_all
  from obs have "observing s0 CLS" "\<not> observing s0 INP" by simp_all
  moreover from dead d have "field INP (vitals (run_vitals
       [InpEntries [\<lparr>entry_duration = 120\<rparr>],
        ClsEntries [\<lparr>shift_value = 0.05, hadRecentInput = False\<rparr>]] s0)) = None"
    by blast
  moreover from live l have "field CLS (vitals (run_vitals
       [InpEntries [\<lparr>entry_duration = 120\<rparr>],
        ClsEntries [\<lparr>shift_value = 0.05, hadRecentInput = False\<rparr>]] s0)) =
     field CLS (vitals (run_vitals
       [InpEntries [\<lparr>entry_duration = 120\<rparr>],
        ClsEntries [\<lparr>shift_value = 0.05, hadRecentInput = False\<rparr>]] s1))"
    by blast
  ultimately show ?thesis using eff by blast
qed

section \<open>Properties of the call interceptor\<close>

lemma settle_outcome: "fst (fetch_wrapper_settle u start outcome now date s) = outcome"
  by (cases outcome) (simp_all add: fetch_wrapper_settle_def Let_def)

lemma settle_requests:
  "requests (snd (fetch_wrapper_settle u start outcome now date s)) =
     take 5 (recorded (u, start, outcome, now, date) # requests s)"
  by (cases outcome) (simp_all add: fetch_wrapper_settle_def Let_def setRequests_def)

lemma settle_frame:
  "window_fetch (snd (fetch_wrapper_settle u start outcome now date s)) = window_fetch s"
  "installed (snd (fetch_wrapper_settle u start outcome now date s)) = installed s"
  "in_flight (snd (fetch_wrapper_settle u start outcome now date s)) = in_flight s"
  "next_closure (snd (fetch_wrapper_settle u start outcome now date s)) = next_closure s"
  "setRequests_calls (snd (fetch_wrapper_settle u start outcome now date s)) =
     Suc (setRequests_calls s)"
  by (cases outcome; simp add: fetch_wrapper_settle_def Let_def setRequests_def)+

lemma take_append_take: "take n (xs @ take n ys) = take n (xs @ ys)"
  by (simp add: min_def)

lemma complete_requests: "requests (complete c s) = take 5 (recorded c # requests s)"
proof -
  obtain u start outcome now date where c: "c = (u, start, outcome, now, date)"
    by (cases c) 
  show ?thesis by (simp add: c settle_requests)
qed

lemma run_completed_requests:
  "length (requests s) \<le> 5 \<Longrightarrow>
   requests (run_completed cs s) = take 5 (rev (map recorded cs) @ requests s)"
proof (induction cs arbitrary: s)
  case Nil
  then show ?case by (simp add: run_completed_def)
next
  case (Cons c cs)
  have len: "length (requests (complete c s)) \<le> 5"
    by (simp add: complete_requests)
  have "requests (run_completed (c # cs) s) = requests (run_completed cs (complete c s))"
    by (simp add: run_completed_def)
  also have "\<dots> = take 5 (rev (map recorded cs) @ take 5 (recorded c # requests s))"
    by (simp only: Cons.IH [OF len] complete_requests)
  also have "\<dots> = take 5 (rev (map recorded cs) @ recorded c # requests s)"
    by (rule take_append_take)
  finally show ?case by simp
qed

lemma run_completed_initial:
  "requests (run_completed cs (net_initial f)) = take 5 (rev (map recorded cs))"
  using run_completed_requests [of "net_initial f" cs] by (simp add: net_initial_def)

text \<open>
  C3.  Every completed call puts its record in front of the history and cuts the history
  to five records.  From the empty history of a new hook, after any sequence of completed
  calls the history is the five most recent records, newest first, never more than five;
  after eight completed calls it is exactly the records of the last five, newest first,
  the three oldest gone.
\<close>

theorem useNetworkMonitor_history_bounded_newest_first:
  "requests (complete c s) = take 5 (recorded c # requests s) \<and>
   requests (run_completed cs (net_initial f)) = take 5 (rev (map recorded cs)) \<and>
   length (requests (run_completed cs (net_initial f))) \<le> 5 \<and>
   (length cs = 8 \<longrightarrow>
      requests (run_completed cs (net_initial f)) = rev (map recorded (drop 3 cs)) \<and>
      length (requests (run_completed cs (net_initial f))) = 5)"
proof -
  have eight: "take 5 (rev (map recorded cs)) = rev (map recorded (drop 3 cs))"
    if "length cs = 8"
    using that by (simp add: take_rev drop_map)
  show ?thesis
    using eight by (simp add: complete_requests run_completed_initial)
qed

lemma net_step_window_fetch: "window_fetch (net_step ev s) = window_fetch s"
  by (cases ev) (simp_all add: settle_frame split: option.split prod.split)

lemma run_net_window_fetch: "window_fetch (run_net evs s) = window_fetch s"
  by (induction evs arbitrary: s) (simp_all add: run_net_def net_step_window_fetch)

lemma Wrapper_not_captured: "Wrapper k f \<noteq> f"
  by (induction f arbitrary: k) simp_all

text \<open>
  C1.  The effect replaces \<^verbatim>\<open>window.fetch\<close> by a new wrapper, which stays there while
  calls are made and settle; after the cleanup \<^verbatim>\<open>window.fetch\<close> is again the very
  function it was before the effect, and it is not the wrapper.
\<close>

theorem useNetworkMonitor_stop_restores_fetch:
  "window_fetch (snd (useNetworkMonitor_effect s)) = Wrapper (next_closure s) (window_fetch s) \<and>
   window_fetch (run_net evs (snd (useNetworkMonitor_effect s))) =
     Wrapper (next_closure s) (window_fetch s) \<and>
   window_fetch (useNetworkMonitor_cleanup (fst (useNetworkMonitor_effect s))
                   (run_net evs (snd (useNetworkMonitor_effect s)))) = window_fetch s \<and>
   window_fetch (useNetworkMonitor_cleanup (fst (useNetworkMonitor_effect s))
                   (run_net evs (snd (useNetworkMonitor_effect s)))) \<noteq>
     Wrapper (next_closure s) (window_fetch s)"
  using Wrapper_not_captured [of "next_closure s" "window_fetch s"]
  by (simp add: run_net_window_fetch useNetworkMonitor_effect_def Let_def
      useNetworkMonitor_cleanup_def)

text \<open>After the eight calls the history holds the last five, newest first.\<close>

theorem useNetworkMonitor_history_bounded_newest_first_witness:
  "map url (requests (run_completed eight_calls (net_initial (HostFetch 0)))) =
     [''/h'', ''/g'', ''/f'', ''/e'', ''/d''] \<and>
   map status (requests (run_completed eight_calls (net_initial (HostFetch 0)))) =
     [204, 200, 0, 500, 200] \<and>
   length (requests (run_completed eight_calls (net_initial (HostFetch 0)))) = 5"
  using useNetworkMonitor_history_bounded_newest_first
    [of "hd eight_calls" "net_initial (HostFetch 0)" eight_calls "HostFetch 0"]
  by (simp add: eight_calls_def)

lemma parseFloat_toFixed_2_near:
  assumes "\<bar>x\<bar> < 10 ^ 21"
  shows "\<exists>n::int. parseFloat_toFixed 2 x = real_of_int n / 100"
    and "\<bar>parseFloat_toFixed 2 x - x\<bar> \<le> 1 / 200"
proof -
  show "\<exists>n::int. parseFloat_toFixed 2 x = real_of_int n / 100"
  proof (cases "x < 0")
    case True
    with assms have "parseFloat_toFixed 2 x = real_of_int (- \<lfloor>(- x) * 100 + 1 / 2\<rfloor>) / 100"
      by (simp add: parseFloat_toFixed_def)
    then show ?thesis by blast
  next
    case False
    with assms have "parseFloat_toFixed 2 x = real_of_int \<lfloor>x * 100 + 1 / 2\<rfloor> / 100"
      by (simp add: parseFloat_toFixed_def)
    then show ?thesis by blast
  qed
  have near: "\<bar>real_of_int \<lfloor>y * 100 + 1 / 2\<rfloor> / 100 - y\<bar> \<le> 1 / 200" for y :: real
  proof -
    have "real_of_int \<lfloor>y * 100 + 1 / 2\<rfloor> \<le> y * 100 + 1 / 2"
      and "y * 100 + 1 / 2 < real_of_int \<lfloor>y * 100 + 1 / 2\<rfloor> + 1"
      by linarith+
    then have "real_of_int \<lfloor>y * 100 + 1 / 2\<rfloor> / 100 - y \<le> 1 / 200"
      and "- (1 / 200) \<le> real_of_int \<lfloor>y * 100 + 1 / 2\<rfloor> / 100 - y"
      by linarith+
    then show ?thesis unfolding abs_le_iff by simp
  qed
  show "\<bar>parseFloat_toFixed 2 x - x\<bar> \<le> 1 / 200"
  proof (cases "x < 0")
    case True
    define r where "r = real_of_int \<lfloor>(- x) * 100 + 1 / 2\<rfloor> / 100"
    from True assms have pf: "parseFloat_toFixed 2 x = - r"
      unfolding r_def by (simp add: parseFloat_toFixed_def)
    have "\<bar>r - (- x)\<bar> \<le> 1 / 200" unfolding r_def by (rule near)
    then have "\<bar>- r - x\<bar> \<le> 1 / 200" by linarith
    then show ?thesis by (simp only: pf)
  next
    case False
    with assms have pf: "parseFloat_toFixed 2 x = real_of_int \<lfloor>x * 100 + 1 / 2\<rfloor> / 100"
      by (simp add: parseFloat_toFixed_def)
    show ?thesis unfolding pf by (rule near)
  qed
qed

text \<open>
  C2.  When \<^verbatim>\<open>originalFetch\<close> rejects with \<open>err\<close>, the wrapper rejects with the same
  \<open>err\<close>, after one \<^verbatim>\<open>setRequests\<close> that puts a record with status 0 and the measured
  duration in front of the history; the duration is not negative when the clock has not
  gone back since the call began.  Whatever the outcome, the wrapper settles as
  \<^verbatim>\<open>originalFetch\<close> did.
\<close>

theorem useNetworkMonitor_failure_recorded_and_rethrown:
  "fst (fetch_wrapper_settle u start (Inl err) now date s) = Inl err \<and>
   requests (snd (fetch_wrapper_settle u start (Inl err) now date s)) =
     take 5 (\<lparr>url = u, status = 0, duration = now - start, timestamp = date\<rparr> # requests s) \<and>
   setRequests_calls (snd (fetch_wrapper_settle u start (Inl err) now date s)) =
     Suc (setRequests_calls s) \<and>
   status (hd (requests (snd (fetch_wrapper_settle u start (Inl err) now date s)))) = 0 \<and>
   (start \<le> now \<longrightarrow>
      0 \<le> duration (hd (requests (snd (fetch_wrapper_settle u start (Inl err) now date s))))) \<and>
   fst (fetch_wrapper_settle u start outcome now date s) = outcome"
  by (simp add: settle_outcome settle_requests settle_frame)

text \<open>A call that began at 100 ms and failed at 130.5 ms.\<close>

theorem useNetworkMonitor_failure_recorded_and_rethrown_witness:
  "fst (fetch_wrapper_settle ''/api/users'' 100 (Inl ''Failed to fetch'') 130.5 1700000000000
          (net_initial (HostFetch 0))) = (Inl ''Failed to fetch'' :: string + unit Response) \<and>
   requests (snd (fetch_wrapper_settle ''/api/users'' 100
          (Inl ''Failed to fetch'' :: string + unit Response) 130.5 1700000000000
          (net_initial (HostFetch 0)))) =
     [\<lparr>url = ''/api/users'', status = 0, duration = 30.5, timestamp = 1700000000000\<rparr>]"
  using useNetworkMonitor_failure_recorded_and_rethrown
    [of "''/api/users''" 100 "''Failed to fetch''" "130.5" 1700000000000
        "net_initial (HostFetch 0)" "Inl ''Failed to fetch'' :: string + unit Response"]
  by (auto simp add: net_initial_def)

text \<open>
  C10.  The record of a successful call holds the elapsed time passed through
  \<^verbatim>\<open>parseFloat(duration.toFixed(2))\<close>, which (below \<open>10^21\<close>) is a whole number of
  hundredths within half a hundredth of the elapsed time; the record of a failed call
  holds the elapsed time as it is.
\<close>

theorem useNetworkMonitor_duration_rounded_on_success_only:
  "duration (hd (requests (snd (fetch_wrapper_settle u start (Inr response) now date s)))) =
     parseFloat_toFixed 2 (now - start) \<and>
   duration (hd (requests (snd (fetch_wrapper_settle u start (Inl err) now date s)))) =
     now - start \<and>
   (\<bar>now - start\<bar> < 10 ^ 21 \<longrightarrow>
      (\<exists>n::int. parseFloat_toFixed 2 (now - start) = real_of_int n / 100) \<and>
      \<bar>parseFloat_toFixed 2 (now - start) - (now - start)\<bar> \<le> 1 / 200)"
  using parseFloat_toFixed_2_near [of "now - start"]
  by (simp add: settle_requests)

text \<open>An elapsed time of 12.3456 ms is recorded as 12.35 on success and 12.3456 on failure.\<close>

theorem useNetworkMonitor_duration_rounded_on_success_only_witness:
  "duration (hd (requests (snd (fetch_wrapper_settle ''/api/users'' 100
          (Inr (Response 200 ()) :: unit + unit Response) 112.3456 1700000000000
          (net_initial (HostFetch 0)))))) = 12.35 \<and>
   duration (hd (requests (snd (fetch_wrapper_settle ''/api/users'' 100
          (Inl () :: unit + unit Response) 112.3456 1700000000000
          (net_initial (HostFetch 0)))))) = 12.3456"
  using useNetworkMonitor_duration_rounded_on_success_only
    [of "''/api/users''" 100 "Response 200 ()" "112.3456" 1700000000000
        "net_initial (HostFetch 0)" "()"]
  by (auto simp add: parseFloat_toFixed_def)

section \<open>Properties: Stopping the collectors\<close>

lemma funpow_idempotent:
  assumes "\<And>x. f (f x) = f x"
  shows "(f ^^ Suc n) x = f x"
  by (induction n) (simp_all add: assms)

lemma useFps_cleanup_twice: "useFps_cleanup (useFps_cleanup s) = useFps_cleanup s"
  by (simp add: useFps_cleanup_def cancelAnimationFrame_def)

lemma frame_idle: "raf_pending s = [] \<Longrightarrow> frame now s = s"
  by (simp add: frame_def)

lemma run_frames_idle: "raf_pending s = [] \<Longrightarrow> run_frames ts s = s"
  by (induction ts) (simp_all add: run_frames_def frame_idle)

lemma useFps_stopped:
  assumes "raf_pending s = [animationFrameId s]"
  shows "run_frames ts (useFps_cleanup s) = useFps_cleanup s"
    and "setFps_calls (useFps_cleanup s) = setFps_calls s"
    and "fps (useFps_cleanup s) = fps s"
proof -
  from assms have "raf_pending (useFps_cleanup s) = []"
    by (simp add: useFps_cleanup_def cancelAnimationFrame_def)
  then show "run_frames ts (useFps_cleanup s) = useFps_cleanup s" by (rule run_frames_idle)
  show "setFps_calls (useFps_cleanup s) = setFps_calls s" "fps (useFps_cleanup s) = fps s"
    by (simp_all add: useFps_cleanup_def cancelAnimationFrame_def)
qed

lemma useMemory_stopped: "run_ticks pms (useMemory_cleanup s) = useMemory_cleanup s"
  by (induction pms) (simp_all add: run_ticks_def tick_def useMemory_cleanup_def)

lemma useMemory_cleanup_twice: "useMemory_cleanup (useMemory_cleanup s) = useMemory_cleanup s"
  by (simp add: useMemory_cleanup_def)

lemma useWebVitals_cleanup_observing: "observing (useWebVitals_cleanup s) = (\<lambda>_. False)"
proof
  fix m show "observing (useWebVitals_cleanup s) m = False"
    by (cases m) (simp_all add: useWebVitals_cleanup_def disconnect_def)
qed

lemma useWebVitals_cleanup_eq: "useWebVitals_cleanup s = s\<lparr>observing := (\<lambda>_. False)\<rparr>"
proof -
  have "(observing s)(LCP := False, CLS := False, FID := False, INP := False) = (\<lambda>_. False)"
  proof
    fix m show "((observing s)(LCP := False, CLS := False, FID := False, INP := False)) m = False"
      by (cases m) simp_all
  qed
  then show ?thesis by (simp add: useWebVitals_cleanup_def disconnect_def)
qed

lemma useWebVitals_cleanup_twice:
  "useWebVitals_cleanup (useWebVitals_cleanup s) = useWebVitals_cleanup s"
  by (simp add: useWebVitals_cleanup_eq)

lemma deliver_disconnected: "observing s = (\<lambda>_. False) \<Longrightarrow> deliver ev s = s"
  by (cases ev) simp_all

lemma useWebVitals_stopped: "run_vitals evs (useWebVitals_cleanup s) = useWebVitals_cleanup s"
  by (induction evs)
    (simp_all add: run_vitals_def deliver_disconnected useWebVitals_cleanup_observing)

lemma useNetworkMonitor_cleanup_twice:
  "useNetworkMonitor_cleanup f (useNetworkMonitor_cleanup f s) = useNetworkMonitor_cleanup f s"
  by (simp add: useNetworkMonitor_cleanup_def)

lemma net_step_installed: "installed (net_step ev s) = installed s"
  by (cases ev) (simp_all add: settle_frame split: option.split prod.split)

lemma run_net_installed: "installed (run_net evs s) = installed s"
  by (induction evs arbitrary: s) (simp_all add: run_net_def net_step_installed)

lemma net_step_off_idle:
  "Some (window_fetch s) \<noteq> installed s \<Longrightarrow> in_flight s = [] \<Longrightarrow> net_step ev s = s"
  by (cases ev) simp_all

lemma run_net_off_idle:
  "Some (window_fetch s) \<noteq> installed s \<Longrightarrow> in_flight s = [] \<Longrightarrow> run_net evs s = s"
  by (induction evs) (simp_all add: run_net_def net_step_off_idle)

lemma net_step_off_bound:
  assumes "Some (window_fetch s) \<noteq> installed s"
  shows "setRequests_calls (net_step ev s) + length (in_flight (net_step ev s)) \<le>
         setRequests_calls s + length (in_flight s)"
proof (cases ev)
  case (Call c u now)
  with assms show ?thesis by simp
next
  case (Settle c outcome now date)
  show ?thesis
  proof (cases "find (\<lambda>(c', _, _). c' = c) (in_flight s)")
    case None
    with Settle show ?thesis by simp
  next
    case (Some call)
    then obtain i where "i < length (in_flight s)" and "in_flight s ! i = call"
        and "(\<lambda>(c', _, _). c' = c) call"
      by (auto simp add: find_Some_iff)
    then have "call \<in> set (in_flight s)" and "\<not> (\<lambda>(c', _, _). c' \<noteq> c) call"
      by (auto simp add: in_set_conv_nth)
    then have "length (filter (\<lambda>(c', _, _). c' \<noteq> c) (in_flight s)) < length (in_flight s)"
      by (rule length_filter_less)
    with Settle Some show ?thesis
      by (simp add: settle_frame split: prod.split)
  qed
qed

lemma run_net_off_bound:
  "Some (window_fetch s) \<noteq> installed s \<Longrightarrow>
   setRequests_calls (run_net evs s) + length (in_flight (run_net evs s)) \<le>
     setRequests_calls s + length (in_flight s)"
proof (induction evs arbitrary: s)
  case Nil
  show ?case by (simp add: run_net_def)
next
  case (Cons ev evs)
  from Cons.prems have "Some (window_fetch (net_step ev s)) \<noteq> installed (net_step ev s)"
    by (simp add: net_step_installed net_step_window_fetch)
  from Cons.IH [OF this] net_step_off_bound [OF Cons.prems, of ev] show ?case
    by (simp add: run_net_def)
qed

lemma useNetworkMonitor_stopped_off:
  "Some (window_fetch (useNetworkMonitor_cleanup (fst (useNetworkMonitor_effect s))
           (run_net evs (snd (useNetworkMonitor_effect s))))) \<noteq>
   installed (useNetworkMonitor_cleanup (fst (useNetworkMonitor_effect s))
           (run_net evs (snd (useNetworkMonitor_effect s))))"
proof -
  have "installed (run_net evs (snd (useNetworkMonitor_effect s))) =
      Some (Wrapper (next_closure s) (window_fetch s))"
    by (simp add: run_net_installed useNetworkMonitor_effect_def Let_def)
  then show ?thesis
    using Wrapper_not_captured [of "next_closure s" "window_fetch s"]
    by (simp add: useNetworkMonitor_cleanup_def useNetworkMonitor_effect_def Let_def)
qed

text \<open>
  C9 as stated fails for the call interceptor: after the cleanup has restored
  \<^verbatim>\<open>window.fetch\<close> and no update has happened yet, the response of the call that was
  in flight arrives, and the wrapper invokes \<^verbatim>\<open>setRequests\<close> with its record.
\<close>

theorem useNetworkMonitor_in_flight_call_updates_after_stop:
  "window_fetch stopped_with_call_in_flight = HostFetch 0 \<and>
   setRequests_calls stopped_with_call_in_flight = 0 \<and>
   requests stopped_with_call_in_flight = [] \<and>
   setRequests_calls
     (run_net [Settle 1 (Inr (Response 200 ()) :: unit + unit Response) 130 1700000000000]
        stopped_with_call_in_flight) = 1 \<and>
   requests
     (run_net [Settle 1 (Inr (Response 200 ()) :: unit + unit Response) 130 1700000000000]
        stopped_with_call_in_flight) =
     [\<lparr>url = ''/api/users'', status = 200, duration = 30, timestamp = 1700000000000\<rparr>]"
  by (simp add: stopped_with_call_in_flight_def run_net_def useNetworkMonitor_effect_def
      useNetworkMonitor_cleanup_def net_initial_def Let_def fetch_wrapper_settle_def
      setRequests_def parseFloat_toFixed_def)

text \<open>
  C9, amended.  The four cleanups are built from \<^verbatim>\<open>cancelAnimationFrame\<close>,
  \<^verbatim>\<open>clearInterval\<close>, \<^verbatim>\<open>disconnect\<close> and an assignment, none of which raises; invoking
  a cleanup again, any number of times, leaves the state it produced the first time.
  After the cleanup of the frame-rate sampler (started on a host with no request of its
  own pending), of the heap sampler and of the vitals observer, no later frame, tick or
  delivery changes what the collector has emitted.  After the cleanup of the call
  interceptor, calls made through \<^verbatim>\<open>window.fetch\<close> are not recorded any more: the number
  of further \<^verbatim>\<open>setRequests\<close> invocations is at most the number of calls that were in
  flight at the cleanup, and if none was, nothing changes at all.
\<close>

theorem stop_handles_idempotent_and_silencing:
  "(useFps_cleanup ^^ Suc n) fs = useFps_cleanup fs \<and>
   (useMemory_cleanup ^^ Suc n) ms = useMemory_cleanup ms \<and>
   (useWebVitals_cleanup ^^ Suc n) vs = useWebVitals_cleanup vs \<and>
   (useNetworkMonitor_cleanup f ^^ Suc n) ns = useNetworkMonitor_cleanup f ns \<and>
   (raf_pending host = [] \<longrightarrow>
      setFps_calls (run_frames later
          (useFps_cleanup (run_frames earlier (useFps_effect t0 t1 host)))) =
        setFps_calls (run_frames earlier (useFps_effect t0 t1 host))) \<and>
   setMemory_calls (run_ticks pms (useMemory_cleanup ms)) = setMemory_calls ms \<and>
   vitals (run_vitals evs (useWebVitals_cleanup vs)) = vitals vs \<and>
   (let stopped = useNetworkMonitor_cleanup (fst (useNetworkMonitor_effect ns0))
                    (run_net pre (snd (useNetworkMonitor_effect ns0)))
    in setRequests_calls (run_net post stopped) \<le>
         setRequests_calls stopped + length (in_flight stopped) \<and>
       (in_flight stopped = [] \<longrightarrow> run_net post stopped = stopped))"
proof -
  have fps: "raf_pending host = [] \<Longrightarrow>
      setFps_calls (run_frames later
          (useFps_cleanup (run_frames earlier (useFps_effect t0 t1 host)))) =
        setFps_calls (run_frames earlier (useFps_effect t0 t1 host))"
    using useFps_stopped [OF run_frames_one_pending [OF useFps_effect_one_pending]]
    by simp
  have mem: "setMemory_calls (run_ticks pms (useMemory_cleanup ms)) = setMemory_calls ms"
    by (simp add: useMemory_stopped) (simp add: useMemory_cleanup_def)
  have vit: "vitals (run_vitals evs (useWebVitals_cleanup vs)) = vitals vs"
    by (simp add: useWebVitals_stopped) (simp add: useWebVitals_cleanup_eq)
  define stopped where "stopped = useNetworkMonitor_cleanup (fst (useNetworkMonitor_effect ns0))
                    (run_net pre (snd (useNetworkMonitor_effect ns0)))"
  have off: "Some (window_fetch stopped) \<noteq> installed stopped"
    unfolding stopped_def by (rule useNetworkMonitor_stopped_off)
  have bound: "setRequests_calls (run_net post stopped) \<le>
         setRequests_calls stopped + length (in_flight stopped)"
    using run_net_off_bound [OF off, of post] by simp
  have idle: "in_flight stopped = [] \<Longrightarrow> run_net post stopped = stopped"
    using off by (rule run_net_off_idle)
  have net: "let stopped = useNetworkMonitor_cleanup (fst (useNetworkMonitor_effect ns0))
                    (run_net pre (snd (useNetworkMonitor_effect ns0)))
    in setRequests_calls (run_net post stopped) \<le>
         setRequests_calls stopped + length (in_flight stopped) \<and>
       (in_flight stopped = [] \<longrightarrow> run_net post stopped = stopped)"
    using bound idle unfolding stopped_def Let_def by blast
  have "(useFps_cleanup ^^ Suc n) fs = useFps_cleanup fs"
    by (rule funpow_idempotent) (rule useFps_cleanup_twice)
  moreover have "(useMemory_cleanup ^^ Suc n) ms = useMemory_cleanup ms"
    by (rule funpow_idempotent) (rule useMemory_cleanup_twice)
  moreover have "(useWebVitals_cleanup ^^ Suc n) vs = useWebVitals_cleanup vs"
    by (rule funpow_idempotent) (rule useWebVitals_cleanup_twice)
  moreover have "(useNetworkMonitor_cleanup f ^^ Suc n) ns = useNetworkMonitor_cleanup f ns"
    by (rule funpow_idempotent) (rule useNetworkMonitor_cleanup_twice)
  ultimately show ?thesis using fps mem vit net by blast
qed

text \<open>
  A sampler that emitted 3 fps and is stopped emits nothing at later frames; an
  interceptor stopped with no call in flight ignores a later call.
\<close>

theorem stop_handles_idempotent_and_silencing_witness:
  "setFps_calls (run_frames [500, 1000] (useFps_effect 0 0 idle_host)) = [3] \<and>
   setFps_calls (run_frames [2100, 3200]
       (useFps_cleanup (run_frames [500, 1000] (useFps_effect 0 0 idle_host)))) = [3] \<and>
   (useFps_cleanup ^^ Suc 1) (useFps_effect 0 0 idle_host) =
     useFps_cleanup (useFps_effect 0 0 idle_host) \<and>
   in_flight stopped_after_one_call = [] \<and>
   setRequests_calls stopped_after_one_call = 1 \<and>
   run_net [Call 2 ''/api/posts'' 200,
            Settle 2 (Inr (Response 200 ()) :: unit + unit Response) 250 1700000000120]
     stopped_after_one_call = stopped_after_one_call"
proof -
  have host: "raf_pending idle_host = []" by (simp add: idle_host_def)
  have before: "setFps_calls (run_frames [500, 1000] (useFps_effect 0 0 idle_host)) = [3]"
    by (simp add: run_frames_def frame_def useFps_effect_def idle_host_def loop_def Let_def
        requestAnimationFrame_loop_def setFps_def Math_round_def)
  have idle: "in_flight stopped_after_one_call = []"
      and calls: "setRequests_calls stopped_after_one_call = 1"
    by (simp_all add: stopped_after_one_call_def run_net_def useNetworkMonitor_effect_def
        useNetworkMonitor_cleanup_def net_initial_def Let_def fetch_wrapper_settle_def
        setRequests_def)
  note inst = stop_handles_idempotent_and_silencing
    [where n = 1 and fs = "useFps_effect 0 0 idle_host" and host = idle_host
       and later = "[2100, 3200]" and earlier = "[500, 1000]" and ?t0.0 = 0 and ?t1.0 = 0
       and ?ns0.0 = "net_initial (HostFetch 0)"
       and pre = "[Call 1 ''/api/users'' 100,
                 Settle 1 (Inr (Response 200 ()) :: unit + unit Response) 130 1700000000000]"
       and post = "[Call 2 ''/api/posts'' 200,
            Settle 2 (Inr (Response 200 ()) :: unit + unit Response) 250 1700000000120]"]
  from inst host before have "setFps_calls (run_frames [2100, 3200]
       (useFps_cleanup (run_frames [500, 1000] (useFps_effect 0 0 idle_host)))) = [3]"
    by simp
  moreover from inst have "(useFps_cleanup ^^ Suc 1) (useFps_effect 0 0 idle_host) =
     useFps_cleanup (useFps_effect 0 0 idle_host)"
    by blast
  moreover from inst idle have "run_net [Call 2 ''/api/posts'' 200,
            Settle 2 (Inr (Response 200 ()) :: unit + unit Response) 250 1700000000120]
     stopped_after_one_call = stopped_after_one_call"
    unfolding stopped_after_one_call_def Let_def by blast
  ultimately show ?thesis using before idle calls by simp
qed

end
